theory Spec2Isabelle
  imports Main "HOL-Library.Multiset"
begin

section \<open>Catalog: the DataLoader object\<close>

text \<open>
  A pack-metadata record as it is read from the two JSON documents.  The optional fields
  \<open>id\<close>, \<open>star\<close> and \<open>type\<close> are options; \<open>is_star\<close> is only ever tested for truthiness, so
  an absent flag is \<open>False\<close>.  The field \<open>id\<close> of the source is \<open>id'\<close> here and \<open>type\<close> is
  \<open>type'\<close>, since both names are taken in HOL.
\<close>

record pack =
  name :: string
  id' :: "string option"
  lvls :: int
  star :: "int option"
  is_star :: bool
  type' :: "string option"

record dataLoader =
  packs :: "pack list"
  events :: "pack list"
  error :: "string option"

text \<open>
  The body of the two \<open>forEach\<close> loops of \<open>DataLoader.init\<close>:
  \<^verbatim>\<open>if (!p.id) p.id = p.name; p.type = 'pack';\<close>
  \<open>!p.id\<close> holds for an absent id and for the empty string.
\<close>

definition normalizeItem :: "string \<Rightarrow> pack \<Rightarrow> pack" where
  "normalizeItem t p =
     (let p1 = (if id' p = None \<or> id' p = Some [] then p\<lparr>id' := Some (name p)\<rparr> else p)
      in p1\<lparr>type' := Some t\<rparr>)"

text \<open>
  What the two fetches of \<open>DataLoader.init\<close> came to: an exception before \<open>this.packs\<close> was
  assigned (a failed request, a status that is not ok, or packs that do not parse), an
  exception from parsing the events after \<open>this.packs\<close> was assigned, or two parsed
  documents.  The string is the message of the exception.
\<close>

datatype fetched =
  PacksFailed string
| EventsFailed "pack list" string
| Loaded "pack list" "pack list"

text \<open>\<open>DataLoader.init\<close>; the \<open>catch\<close> branch stores the message and nothing else.\<close>

definition DataLoader_init :: "fetched \<Rightarrow> dataLoader" where
  "DataLoader_init f =
     (case f of
        PacksFailed msg \<Rightarrow> \<lparr>packs = [], events = [], error = Some msg\<rparr>
      | EventsFailed ps msg \<Rightarrow> \<lparr>packs = ps, events = [], error = Some msg\<rparr>
      | Loaded ps es \<Rightarrow>
          \<lparr>packs = map (normalizeItem ''pack'') ps,
           events = map (normalizeItem ''event'') es,
           error = None\<rparr>)"

text \<open>
  \<open>DataLoader.getPack\<close>:
  \<^verbatim>\<open>return this.packs.find(p => p.name === id) || this.events.find(e => e.name === id);\<close>
  \<open>undefined\<close> is \<open>None\<close>; a found object is always truthy.
\<close>

definition getPack :: "dataLoader \<Rightarrow> string \<Rightarrow> pack option" where
  "getPack dl i =
     (case find (\<lambda>p. name p = i) (packs dl) of
        Some p \<Rightarrow> Some p
      | None \<Rightarrow> find (\<lambda>e. name e = i) (events dl))"

section \<open>Progress: the State object\<close>

text \<open>
  \<open>unlocked\<close> maps a pack id to its frontier, \<open>completed\<close> maps a pack id to the set of level
  indices whose flag is \<open>true\<close>.  \<open>save\<close> and \<open>updateUI\<close> copy the record to localStorage and
  to the page and leave the record as it is, so they do not appear below.
\<close>

record state =
  coins :: int
  stars :: int
  unlocked :: "string \<rightharpoonup> int"
  completed :: "string \<rightharpoonup> int set"

text \<open>\<open>State.completeLevel\<close>, statement by statement.\<close>

definition completeLevel :: "dataLoader \<Rightarrow> string \<Rightarrow> int \<Rightarrow> state \<Rightarrow> state" where
  "completeLevel dl packId levelIndex s =
     (let done = (case completed s packId of None \<Rightarrow> {} | Some c \<Rightarrow> c);
          isFirstCompletion = (levelIndex \<notin> done);
          s1 = s\<lparr>completed := (completed s)(packId \<mapsto> insert levelIndex done)\<rparr>;
          s2 = (if unlocked s1 packId = Some levelIndex
                then s1\<lparr>unlocked := (unlocked s1)(packId \<mapsto> levelIndex + 1)\<rparr>
                else s1)
      in if isFirstCompletion
         then (case getPack dl packId of
                 Some p \<Rightarrow> if is_star p then s2\<lparr>stars := stars s2 + 1\<rparr> else s2
               | None \<Rightarrow> s2)
         else s2)"

text \<open>\<open>State.deductCoins\<close> returns its boolean together with the record.\<close>

definition deductCoins :: "int \<Rightarrow> state \<Rightarrow> bool \<times> state" where
  "deductCoins amount s =
     (if coins s \<ge> amount then (True, s\<lparr>coins := coins s - amount\<rparr>) else (False, s))"

definition addCoins :: "int \<Rightarrow> state \<Rightarrow> state" where
  "addCoins amount s = s\<lparr>coins := coins s + amount\<rparr>"

section \<open>The puzzle: the Game object\<close>

datatype js_error = TypeError

text \<open>
  An element of \<open>selectedIndices\<close>: \<open>null\<close>, an index into \<open>scrambledLetters\<close>, or a hole,
  which a write beyond the end of the array leaves behind.  A hole reads as \<open>undefined\<close>,
  as does every position beyond the array; \<open>includes\<close> and \<open>indexOf\<close> never find \<open>null\<close>
  or a number in a hole.
\<close>

datatype slot = Null | Idx nat | Hole

text \<open>What \<open>checkWin\<close> does: return early, schedule \<open>handleWin\<close>, or shake the slots.\<close>

datatype verdict = Incomplete | Win | Mismatch

record letter =
  char :: char
  letter_id :: string

record game =
  currentPackId :: string
  currentLevelIndex :: int
  currentRawWord :: string
  targetWord :: string
  scrambledLetters :: "letter list"
  selectedIndices :: "slot list"

text \<open>The array read \<open>selectedIndices[i]\<close> and the array write \<open>selectedIndices[i] = v\<close>.\<close>

definition getSlot :: "slot list \<Rightarrow> nat \<Rightarrow> slot" where
  "getSlot xs i = (if i < length xs then xs ! i else Hole)"

definition setSlot :: "slot list \<Rightarrow> nat \<Rightarrow> slot \<Rightarrow> slot list" where
  "setSlot xs i v =
     (if i < length xs then xs[i := v] else xs @ replicate (i - length xs) Hole @ [v])"

text \<open>\<open>Array.prototype.indexOf\<close>; the result \<open>-1\<close> is \<open>None\<close>.\<close>

fun indexOf :: "'a list \<Rightarrow> 'a \<Rightarrow> nat option" where
  "indexOf [] x = None"
| "indexOf (y # ys) x = (if y = x then Some 0 else map_option Suc (indexOf ys x))"

text \<open>
  What one element of \<open>selectedIndices\<close> adds to
  \<^verbatim>\<open>this.selectedIndices.map(idx => this.scrambledLetters[idx].char).join('')\<close>
  \<open>map\<close> does not call its function on a hole and \<open>join\<close> writes a hole as the empty
  string.  On every other element the function reads \<open>.char\<close> of
  \<open>scrambledLetters[idx]\<close>, which throws a TypeError (\<open>None\<close> here) when that is
  \<open>undefined\<close>.
\<close>

definition letterChar :: "letter list \<Rightarrow> slot \<Rightarrow> string option" where
  "letterChar scr sl =
     (case sl of Idx k \<Rightarrow> if k < length scr then Some [char (scr ! k)] else None
      | Null \<Rightarrow> None
      | Hole \<Rightarrow> Some [])"

definition isScrambledIndexSelected :: "game \<Rightarrow> nat \<Rightarrow> bool" where
  "isScrambledIndexSelected g scrambledIdx \<longleftrightarrow> Idx scrambledIdx \<in> set (selectedIndices g)"

text \<open>
  \<open>Game.render\<close> rebuilds the page from the attempt and does not change it.  Its slot loop
  reads \<open>this.scrambledLetters[selectedIndex].char\<close> for every slot below
  \<open>targetWord.length\<close> that is not \<open>null\<close>, so it throws exactly when one of these reads
  fails.  The result is the exception, if any.
\<close>

definition render :: "game \<Rightarrow> js_error option" where
  "render g =
     (if list_all
           (\<lambda>i. case getSlot (selectedIndices g) i of
                   Null \<Rightarrow> True
                 | Idx k \<Rightarrow> k < length (scrambledLetters g)
                 | Hole \<Rightarrow> False)
           [0..<length (targetWord g)]
      then None else Some TypeError)"

text \<open>\<open>Game.checkWin\<close>.  It writes nothing to the attempt, which is returned as it came.\<close>

definition checkWin :: "game \<Rightarrow> (js_error + verdict) \<times> game" where
  "checkWin g =
     (if Null \<in> set (selectedIndices g) then (Inr Incomplete, g)
      else case those (map (letterChar (scrambledLetters g)) (selectedIndices g)) of
             None \<Rightarrow> (Inl TypeError, g)
           | Some parts \<Rightarrow>
               (let currentWord = concat parts
                in if currentWord = targetWord g then (Inr Win, g) else (Inr Mismatch, g)))"

text \<open>
  \<open>Game.selectLetter\<close>.  The result is \<open>Inr None\<close> when no slot is empty (nothing happens),
  \<open>Inr (Some v)\<close> with the verdict of \<open>checkWin\<close> otherwise, and \<open>Inl\<close> when \<open>render\<close> or
  \<open>checkWin\<close> threw after the slot had been written.
\<close>

definition selectLetter :: "nat \<Rightarrow> game \<Rightarrow> (js_error + verdict option) \<times> game" where
  "selectLetter scrambledIndex g =
     (case indexOf (selectedIndices g) Null of
        None \<Rightarrow> (Inr None, g)
      | Some emptySlotIndex \<Rightarrow>
          (let g1 = g\<lparr>selectedIndices :=
                        setSlot (selectedIndices g) emptySlotIndex (Idx scrambledIndex)\<rparr>
           in case render g1 of
                Some e \<Rightarrow> (Inl e, g1)
              | None \<Rightarrow>
                  (case checkWin g1 of
                     (Inl e, g2) \<Rightarrow> (Inl e, g2)
                   | (Inr v, g2) \<Rightarrow> (Inr (Some v), g2))))"

text \<open>\<open>Game.deselectLetter\<close>.\<close>

definition deselectLetter :: "nat \<Rightarrow> game \<Rightarrow> js_error option \<times> game" where
  "deselectLetter slotIndex g =
     (let g1 = g\<lparr>selectedIndices := setSlot (selectedIndices g) slotIndex Null\<rparr>
      in (render g1, g1))"

subsection \<open>Starting an attempt\<close>

text \<open>
  The Fisher-Yates loop of \<open>Game.reset\<close>, \<open>for (let i = letters.length - 1; i > 0; i--)\<close>.
  \<open>rnd i\<close> stands for the draw \<open>Math.random()\<close> of the iteration with index \<open>i\<close>;
  \<open>Math.floor(Math.random() * (i + 1))\<close> lies in \<open>0..i\<close>, which is \<open>rnd i mod (i + 1)\<close>.
  The destructuring swap reads both elements before it writes either.
\<close>

fun shuffle :: "(nat \<Rightarrow> nat) \<Rightarrow> nat \<Rightarrow> 'a list \<Rightarrow> 'a list" where
  "shuffle rnd 0 letters = letters"
| "shuffle rnd (Suc k) letters =
     (let i = Suc k; j = rnd i mod (i + 1)
      in shuffle rnd k (letters[i := letters ! j, j := letters ! i]))"

text \<open>The decimal digits of an array index, for the template string \<open>l-${id}\<close>.\<close>

fun decimal :: "nat \<Rightarrow> string" where
  "decimal n =
     (if n < 10 then [''0123456789'' ! n]
      else decimal (n div 10) @ [''0123456789'' ! (n mod 10)])"

text \<open>\<open>Game.reset\<close>; the result is the outcome of its final \<open>render\<close> and the new attempt.\<close>

definition reset :: "(nat \<Rightarrow> nat) \<Rightarrow> game \<Rightarrow> js_error option \<times> game" where
  "reset rnd g =
     (let g1 = g\<lparr>selectedIndices := replicate (length (targetWord g)) Null\<rparr>;
          letters = shuffle rnd (length (targetWord g1) - 1) (targetWord g1);
          g2 = g1\<lparr>scrambledLetters :=
                    map (\<lambda>(i, c). \<lparr>char = c, letter_id = ''l-'' @ decimal i\<rparr>)
                        (enumerate 0 letters)\<rparr>
      in (render g2, g2))"

text \<open>
  The class \<open>\s\<close> of the regular expression, on the code units a \<open>char\<close> can hold: tab, line
  feed, vertical tab, form feed, carriage return, space and no-break space.
\<close>

definition isWhitespace :: "char \<Rightarrow> bool" where
  "isWhitespace c \<longleftrightarrow>
     c \<in> set [CHR 0x09, CHR 0x0A, CHR 0x0B, CHR 0x0C, CHR 0x0D, CHR 0x20, CHR 0xA0]"

text \<open>
  \<open>Game.init\<close> from the point where the access checks have passed and the word of the
  level has been read:
  \<^verbatim>\<open>this.targetWord = rawWord.replace(/\s+/g, '').toUpperCase(); ... this.reset();\<close>
  Removing every maximal run of whitespace removes every whitespace character.
  \<open>String.prototype.toUpperCase\<close> belongs to the host and is a parameter.
\<close>

definition Game_init ::
  "(string \<Rightarrow> string) \<Rightarrow> (nat \<Rightarrow> nat) \<Rightarrow> string \<Rightarrow> int \<Rightarrow> string \<Rightarrow> js_error option \<times> game" where
  "Game_init toUpperCase rnd packId levelIndex rawWord =
     reset rnd
       \<lparr>currentPackId = packId,
        currentLevelIndex = levelIndex,
        currentRawWord = rawWord,
        targetWord = toUpperCase (filter (\<lambda>c. \<not> isWhitespace c) rawWord),
        scrambledLetters = [],
        selectedIndices = []\<rparr>"

subsection \<open>Winning and skipping\<close>

text \<open>\<open>Game.handleWin\<close> and \<open>Game.skipLevel\<close>; showing the modal changes neither record.\<close>

definition handleWin :: "dataLoader \<Rightarrow> game \<Rightarrow> state \<Rightarrow> state" where
  "handleWin dl g s =
     addCoins 10 (completeLevel dl (currentPackId g) (currentLevelIndex g) s)"

text \<open>The boolean tells whether the skip went through (otherwise the alert is shown).\<close>

definition skipLevel :: "dataLoader \<Rightarrow> game \<Rightarrow> state \<Rightarrow> bool \<times> state" where
  "skipLevel dl g s =
     (case deductCoins 50 s of
        (True, s1) \<Rightarrow> (True, completeLevel dl (currentPackId g) (currentLevelIndex g) s1)
      | (False, s1) \<Rightarrow> (False, s1))"

subsection \<open>Hints\<close>

text \<open>
  The first loop of \<open>Game.useHint\<close>, over \<open>i = 0 .. targetWord.length - 1\<close>; the third
  and fourth arguments are what is left of \<open>targetWord\<close> and of \<open>selectedIndices\<close> from
  position \<open>i\<close> on.  \<open>Inr None\<close> is \<open>slotToFix = -1\<close>.  A slot that is neither \<open>null\<close>
  nor an index into \<open>scrambledLetters\<close> makes the read of \<open>.char\<close> throw.
\<close>

fun findSlotToFix :: "letter list \<Rightarrow> nat \<Rightarrow> string \<Rightarrow> slot list \<Rightarrow> js_error + nat option" where
  "findSlotToFix scr i [] sel = Inr None"
| "findSlotToFix scr i (correctChar # cs) [] = Inl TypeError"
| "findSlotToFix scr i (correctChar # cs) (Null # sel) = Inr (Some i)"
| "findSlotToFix scr i (correctChar # cs) (Hole # sel) = Inl TypeError"
| "findSlotToFix scr i (correctChar # cs) (Idx selectedIdx # sel) =
     (if selectedIdx < length scr
      then (if char (scr ! selectedIdx) \<noteq> correctChar then Inr (Some i)
            else findSlotToFix scr (Suc i) cs sel)
      else Inl TypeError)"

text \<open>
  The second loop, over the indices \<open>i\<close> of \<open>scrambledLetters\<close>; the fourth argument is what
  is left of \<open>scrambledLetters\<close> from \<open>i\<close> on and the fifth is \<open>usedScrambledIdx\<close> so far.
  The result is the pair \<open>(bestScrambledIdx, usedScrambledIdx)\<close>, \<open>-1\<close> being \<open>None\<close>.
\<close>

fun findScrambledIdx ::
  "slot list \<Rightarrow> char \<Rightarrow> nat \<Rightarrow> letter list \<Rightarrow> nat option \<Rightarrow> nat option \<times> nat option" where
  "findScrambledIdx sel correctChar i [] used = (None, used)"
| "findScrambledIdx sel correctChar i (l # ls) used =
     (if char l = correctChar
      then (if Idx i \<notin> set sel then (Some i, used)
            else findScrambledIdx sel correctChar (Suc i) ls (Some i))
      else findScrambledIdx sel correctChar (Suc i) ls used)"

text \<open>
  What a call of \<open>useHint\<close> came to: the alert, \<open>slotToFix = -1\<close>, no letter of the pool
  with the wanted character, or a letter written to a slot followed by \<open>checkWin\<close>.
\<close>

datatype hint = NotEnoughCoins | NoChangeNeeded | NoLetterFound | Applied nat verdict

text \<open>
  \<open>Game.useHint\<close>.  \<open>targetWord[slotToFix]\<close> is read at an index the first loop returned,
  which is below \<open>targetWord.length\<close>.
\<close>

definition useHint :: "state \<Rightarrow> game \<Rightarrow> (js_error + hint) \<times> state \<times> game" where
  "useHint s g =
     (case deductCoins 20 s of
        (False, s1) \<Rightarrow> (Inr NotEnoughCoins, s1, g)
      | (True, s1) \<Rightarrow>
          (case findSlotToFix (scrambledLetters g) 0 (targetWord g) (selectedIndices g) of
             Inl e \<Rightarrow> (Inl e, s1, g)
           | Inr None \<Rightarrow> (Inr NoChangeNeeded, s1, g)
           | Inr (Some slotToFix) \<Rightarrow>
               (let correctChar = targetWord g ! slotToFix;
                    (bestScrambledIdx, usedScrambledIdx) =
                       findScrambledIdx (selectedIndices g) correctChar 0 (scrambledLetters g) None;
                    finalScrambledIdx =
                       (case bestScrambledIdx of Some b \<Rightarrow> Some b | None \<Rightarrow> usedScrambledIdx)
                in case finalScrambledIdx of
                     None \<Rightarrow> (Inr NoLetterFound, s1, g)
                   | Some final \<Rightarrow>
                       (let sel1 = (case indexOf (selectedIndices g) (Idx final) of
                                      Some oldSlotIdx \<Rightarrow> setSlot (selectedIndices g) oldSlotIdx Null
                                    | None \<Rightarrow> selectedIndices g);
                            g1 = g\<lparr>selectedIndices := setSlot sel1 slotToFix (Idx final)\<rparr>
                        in case render g1 of
                             Some e \<Rightarrow> (Inl e, s1, g1)
                           | None \<Rightarrow>
                               (case checkWin g1 of
                                  (Inl e, g2) \<Rightarrow> (Inl e, s1, g2)
                                | (Inr v, g2) \<Rightarrow> (Inr (Applied slotToFix v), s1, g2))))))"

subsection \<open>The callers of selectLetter\<close>

text \<open>
  The last part of \<open>Game.handleInput\<close>, which is reached when the overlay is closed and the
  key is none of Escape, the space bar, Backspace, ArrowUp, ArrowDown and ArrowRight: the
  search for the first index whose letter is \<open>key\<close> and which is not selected, and the
  call of \<open>selectLetter\<close> on it.  \<open>key\<close> is \<open>e.key.toUpperCase()\<close>, a string; a letter's
  \<open>char\<close> is a string of length one.
\<close>

fun findAvailable :: "slot list \<Rightarrow> string \<Rightarrow> nat \<Rightarrow> letter list \<Rightarrow> nat option" where
  "findAvailable sel key i [] = None"
| "findAvailable sel key i (l # ls) =
     (if [char l] = key \<and> Idx i \<notin> set sel then Some i
      else findAvailable sel key (Suc i) ls)"

definition handleInputLetter :: "string \<Rightarrow> game \<Rightarrow> (js_error + verdict option) \<times> game" where
  "handleInputLetter key g =
     (case findAvailable (selectedIndices g) key 0 (scrambledLetters g) of
        Some foundIdx \<Rightarrow> selectLetter foundIdx g
      | None \<Rightarrow> (Inr None, g))"

text \<open>
  A click on the tile \<open>index\<close> of the keyboard.  \<open>render\<close> makes one tile for each element
  of \<open>scrambledLetters\<close> and gives it a click handler only when it is not selected:
  \<^verbatim>\<open>if (!isSelected) { tile.onclick = () => this.selectLetter(index); }\<close>
\<close>

definition tileClick :: "nat \<Rightarrow> game \<Rightarrow> (js_error + verdict option) \<times> game" where
  "tileClick index g =
     (if index < length (scrambledLetters g) \<and> \<not> isScrambledIndexSelected g index
      then selectLetter index g
      else (Inr None, g))"

section \<open>Notions of the specification\<close>

text \<open>
  A level counts as completed when its flag is set, the test
  \<open>State.completed[packId] && State.completed[packId][levelIndex]\<close> of the source.
\<close>

definition isLevelCompleted :: "state \<Rightarrow> string \<Rightarrow> int \<Rightarrow> bool" where
  "isLevelCompleted s packId levelIndex =
     (case completed s packId of None \<Rightarrow> False | Some c \<Rightarrow> levelIndex \<in> c)"

text \<open>A pack is star-eligible when the catalog has it and its \<open>is_star\<close> flag is set.\<close>

definition isStarEligible :: "dataLoader \<Rightarrow> string \<Rightarrow> bool" where
  "isStarEligible dl packId =
     (case getPack dl packId of None \<Rightarrow> False | Some p \<Rightarrow> is_star p)"

text \<open>
  Every element of the slot assignment is empty or names a letter of the pool; a
  well-formed attempt has, besides, as many slots as \<open>targetWord\<close> has letters.
\<close>

definition slotsValid :: "game \<Rightarrow> bool" where
  "slotsValid g =
     list_all (\<lambda>sl. case sl of Null \<Rightarrow> True
                     | Idx k \<Rightarrow> k < length (scrambledLetters g)
                     | Hole \<Rightarrow> False)
       (selectedIndices g)"

definition wellFormed :: "game \<Rightarrow> bool" where
  "wellFormed g \<longleftrightarrow> length (selectedIndices g) = length (targetWord g) \<and> slotsValid g"

text \<open>The characters of the letters the slots refer to, concatenated in slot order.\<close>

definition placedChars :: "letter list \<Rightarrow> slot list \<Rightarrow> string" where
  "placedChars scr sel =
     concat (map (\<lambda>sl. case sl of
                          Idx k \<Rightarrow> if k < length scr then [char (scr ! k)] else []
                        | Null \<Rightarrow> []
                        | Hole \<Rightarrow> [])
                 sel)"

definition placedWord :: "game \<Rightarrow> string" where
  "placedWord g = placedChars (scrambledLetters g) (selectedIndices g)"

text \<open>
  Slot \<open>i\<close> holds the correct letter: it is filled and the character of its letter is
  \<open>targetWord[i]\<close>, the comparison of the first loop of \<open>useHint\<close>.
\<close>

definition slotCorrect :: "game \<Rightarrow> nat \<Rightarrow> bool" where
  "slotCorrect g i =
     (case getSlot (selectedIndices g) i of
        Idx k \<Rightarrow> i < length (targetWord g) \<and> k < length (scrambledLetters g) \<and>
                 char (scrambledLetters g ! k) = targetWord g ! i
      | Null \<Rightarrow> False
      | Hole \<Rightarrow> False)"

definition correctCount :: "game \<Rightarrow> nat" where
  "correctCount g = length (filter (slotCorrect g) [0..<length (targetWord g)])"

text \<open>
  The letter that a hint wrote to slot \<open>slotToFix\<close> of \<open>g'\<close> was taken out of a slot of \<open>g\<close>
  in which it was correct.
\<close>

definition takenFromCorrectSlot :: "game \<Rightarrow> game \<Rightarrow> nat \<Rightarrow> bool" where
  "takenFromCorrectSlot g g' slotToFix =
     (case getSlot (selectedIndices g') slotToFix of
        Idx final \<Rightarrow>
          (case indexOf (selectedIndices g) (Idx final) of
             Some oldSlotIdx \<Rightarrow> slotCorrect g oldSlotIdx
           | None \<Rightarrow> False)
      | Null \<Rightarrow> False
      | Hole \<Rightarrow> False)"

text \<open>The pool indices in the slots, in slot order; no index should occur twice.\<close>

definition placedIndices :: "slot list \<Rightarrow> nat list" where
  "placedIndices sel =
     concat (map (\<lambda>sl. case sl of Idx k \<Rightarrow> [k] | Null \<Rightarrow> [] | Hole \<Rightarrow> []) sel)"

definition placedAtMostOnce :: "game \<Rightarrow> bool" where
  "placedAtMostOnce g = distinct (placedIndices (selectedIndices g))"

section \<open>Example inputs\<close>

definition classicPack :: pack where
  "classicPack =
     \<lparr>name = ''Classic'', id' = None, lvls = 3, star = None, is_star = True, type' = None\<rparr>"

definition classicCatalog :: dataLoader where
  "classicCatalog = DataLoader_init (Loaded [classicPack] [])"

text \<open>A pack whose explicit id differs from its name.\<close>

definition renamedCatalog :: dataLoader where
  "renamedCatalog = DataLoader_init (Loaded [classicPack\<lparr>id' := Some ''p1''\<rparr>] [])"

definition freshState :: state where
  "freshState =
     \<lparr>coins = 100, stars = 0, unlocked = [''Classic'' \<mapsto> 0], completed = [''Classic'' \<mapsto> {}]\<rparr>"

text \<open>An attempt at the word ABA with the pool A, B, A and the given slots.\<close>

definition abaAttempt :: "slot list \<Rightarrow> game" where
  "abaAttempt sel =
     \<lparr>currentPackId = ''Classic'', currentLevelIndex = 0, currentRawWord = ''a b a'',
      targetWord = ''ABA'',
      scrambledLetters =
        [\<lparr>char = CHR ''A'', letter_id = ''l-0''\<rparr>,
         \<lparr>char = CHR ''B'', letter_id = ''l-1''\<rparr>,
         \<lparr>char = CHR ''A'', letter_id = ''l-2''\<rparr>],
      selectedIndices = sel\<rparr>"

text \<open>An attempt at the word AAB with the pool A, A, B and the given slots.\<close>

definition aabAttempt :: "slot list \<Rightarrow> game" where
  "aabAttempt sel =
     \<lparr>currentPackId = ''Classic'', currentLevelIndex = 1, currentRawWord = ''a ab'',
      targetWord = ''AAB'',
      scrambledLetters =
        [\<lparr>char = CHR ''A'', letter_id = ''l-0''\<rparr>,
         \<lparr>char = CHR ''A'', letter_id = ''l-1''\<rparr>,
         \<lparr>char = CHR ''B'', letter_id = ''l-2''\<rparr>],
      selectedIndices = sel\<rparr>"

section \<open>Spending coins\<close>

text \<open>
  C7.  Spending coins with \<open>deductCoins\<close> returns true and lowers the balance by exactly the
  cost when the balance covers it; otherwise it returns false and the whole progress record
  is unchanged.  \<open>useHint\<close> spends 20 and \<open>skipLevel\<close> spends 50 this way, and when the
  balance is too low they leave the progress record, and \<open>useHint\<close> the attempt, as they
  were.
\<close>

theorem deductCoins_spec:
  "(amount \<le> coins s \<longrightarrow>
      deductCoins amount s = (True, s\<lparr>coins := coins s - amount\<rparr>)) \<and>
   (coins s < amount \<longrightarrow> deductCoins amount s = (False, s)) \<and>
   (coins s < 20 \<longrightarrow> useHint s g = (Inr NotEnoughCoins, s, g)) \<and>
   (coins s < 50 \<longrightarrow> skipLevel dl g s = (False, s))"
  by (simp add: deductCoins_def useHint_def skipLevel_def)

theorem deductCoins_spec_witness:
  "coins (freshState\<lparr>coins := 15\<rparr>) < 20 \<and>
   deductCoins 20 (freshState\<lparr>coins := 15\<rparr>) = (False, freshState\<lparr>coins := 15\<rparr>) \<and>
   useHint (freshState\<lparr>coins := 15\<rparr>) (abaAttempt [Null, Null, Null])
     = (Inr NotEnoughCoins, freshState\<lparr>coins := 15\<rparr>, abaAttempt [Null, Null, Null]) \<and>
   skipLevel classicCatalog (abaAttempt [Null, Null, Null]) (freshState\<lparr>coins := 15\<rparr>)
     = (False, freshState\<lparr>coins := 15\<rparr>) \<and>
   50 \<le> coins freshState \<and>
   deductCoins 50 freshState = (True, freshState\<lparr>coins := 50\<rparr>)"
proof -
  have poor: "coins (freshState\<lparr>coins := 15\<rparr>) < 20" "coins (freshState\<lparr>coins := 15\<rparr>) < 50"
    by simp_all
  have rich: "50 \<le> coins freshState" and left: "coins freshState - 50 = 50"
    by (simp_all add: freshState_def)
  from deductCoins_spec [of 20 "freshState\<lparr>coins := 15\<rparr>" "abaAttempt [Null, Null, Null]"
      classicCatalog] poor
  have "deductCoins 20 (freshState\<lparr>coins := 15\<rparr>) = (False, freshState\<lparr>coins := 15\<rparr>)"
    and "useHint (freshState\<lparr>coins := 15\<rparr>) (abaAttempt [Null, Null, Null])
           = (Inr NotEnoughCoins, freshState\<lparr>coins := 15\<rparr>, abaAttempt [Null, Null, Null])"
    and "skipLevel classicCatalog (abaAttempt [Null, Null, Null]) (freshState\<lparr>coins := 15\<rparr>)
           = (False, freshState\<lparr>coins := 15\<rparr>)"
    by blast+
  moreover from deductCoins_spec [of 50 freshState] rich
  have "deductCoins 50 freshState = (True, freshState\<lparr>coins := coins freshState - 50\<rparr>)"
    by blast
  ultimately show ?thesis
    using poor rich by (simp only: left simp_thms)
qed

section \<open>Completing a level\<close>

lemma completed_completeLevel:
  "completed (completeLevel dl packId levelIndex s) =
     (completed s)(packId \<mapsto>
        insert levelIndex (case completed s packId of None \<Rightarrow> {} | Some c \<Rightarrow> c))"
  by (simp add: completeLevel_def Let_def split: option.split)

lemma isLevelCompleted_completeLevel:
  "isLevelCompleted (completeLevel dl packId levelIndex s) q l \<longleftrightarrow>
     (q = packId \<and> l = levelIndex) \<or> isLevelCompleted s q l"
  by (simp add: isLevelCompleted_def completed_completeLevel split: option.split)

lemma stars_completeLevel:
  "stars (completeLevel dl packId levelIndex s) =
     stars s + (if \<not> isLevelCompleted s packId levelIndex \<and> isStarEligible dl packId
                then 1 else 0)"
  by (simp add: completeLevel_def isLevelCompleted_def isStarEligible_def Let_def
      split: option.split)

lemma unlocked_completeLevel:
  "unlocked (completeLevel dl packId levelIndex s) =
     (if unlocked s packId = Some levelIndex
      then (unlocked s)(packId \<mapsto> levelIndex + 1) else unlocked s)"
  by (simp add: completeLevel_def Let_def split: option.split)

lemma coins_completeLevel: "coins (completeLevel dl packId levelIndex s) = coins s"
  by (simp add: completeLevel_def Let_def split: option.split)

lemma getPack_classic: "getPack classicCatalog ''Classic'' = Some (normalizeItem ''pack'' classicPack)"
  by (simp add: getPack_def classicCatalog_def DataLoader_init_def normalizeItem_def
      classicPack_def)

lemma is_star_classic: "is_star (normalizeItem ''pack'' classicPack)"
  by (simp add: normalizeItem_def classicPack_def)

text \<open>
  C4.  \<open>completeLevel\<close> raises \<open>stars\<close> by exactly one if and only if the level was not
  completed before and the pack is star-eligible, and leaves \<open>stars\<close> alone otherwise;
  completing the same level again awards nothing; and completing one level does not
  change whether any other level is still to be completed for the first time.
\<close>

theorem completeLevel_stars:
  "stars (completeLevel dl packId levelIndex s) =
     stars s + (if \<not> isLevelCompleted s packId levelIndex \<and> isStarEligible dl packId
                then 1 else 0) \<and>
   stars (completeLevel dl packId levelIndex (completeLevel dl packId levelIndex s)) =
     stars (completeLevel dl packId levelIndex s) \<and>
   ((q, l) \<noteq> (packId, levelIndex) \<longrightarrow>
      isLevelCompleted (completeLevel dl packId levelIndex s) q l = isLevelCompleted s q l)"
  by (auto simp: stars_completeLevel isLevelCompleted_completeLevel)

theorem completeLevel_stars_witness:
  "stars (completeLevel classicCatalog ''Classic'' 0 freshState) = 1 \<and>
   stars (completeLevel classicCatalog ''Classic'' 0
            (completeLevel classicCatalog ''Classic'' 0 freshState)) = 1 \<and>
   \<not> isLevelCompleted (completeLevel classicCatalog ''Classic'' 0 freshState) ''Classic'' 1"
  using completeLevel_stars [of classicCatalog "''Classic''" 0 freshState "''Classic''" 1]
  by (simp add: isLevelCompleted_def isStarEligible_def getPack_classic is_star_classic
      freshState_def)

text \<open>
  C5.  \<open>completeLevel\<close> sets the frontier of the pack to \<open>levelIndex + 1\<close> exactly when the
  frontier is \<open>levelIndex\<close> and leaves every frontier unchanged otherwise; no frontier
  decreases, every completed set only grows, and the level is completed afterwards.
\<close>

theorem completeLevel_frontier:
  "unlocked (completeLevel dl packId levelIndex s) =
     (if unlocked s packId = Some levelIndex
      then (unlocked s)(packId \<mapsto> levelIndex + 1) else unlocked s) \<and>
   (\<forall>q v. unlocked s q = Some v \<longrightarrow>
      (\<exists>v'. unlocked (completeLevel dl packId levelIndex s) q = Some v' \<and> v \<le> v')) \<and>
   (\<forall>q c. completed s q = Some c \<longrightarrow>
      (\<exists>c'. completed (completeLevel dl packId levelIndex s) q = Some c' \<and> c \<subseteq> c')) \<and>
   isLevelCompleted (completeLevel dl packId levelIndex s) packId levelIndex"
  by (auto simp: unlocked_completeLevel completed_completeLevel
      isLevelCompleted_completeLevel)

theorem completeLevel_frontier_witness:
  "unlocked (completeLevel classicCatalog ''Classic'' 0 freshState) ''Classic'' = Some 1 \<and>
   unlocked (completeLevel classicCatalog ''Classic'' 2 freshState) ''Classic'' = Some 0 \<and>
   (\<exists>c'. completed (completeLevel classicCatalog ''Classic'' 0 freshState) ''Classic'' = Some c'
           \<and> {} \<subseteq> c')"
proof -
  have c: "completed freshState ''Classic'' = Some {}"
    by (simp add: freshState_def)
  have u: "unlocked freshState ''Classic'' = Some 0" "unlocked freshState ''Classic'' \<noteq> Some 2"
    by (simp_all add: freshState_def)
  from completeLevel_frontier [of classicCatalog "''Classic''" 0 freshState] c
  have "\<exists>c'. completed (completeLevel classicCatalog ''Classic'' 0 freshState) ''Classic'' = Some c'
           \<and> {} \<subseteq> c'"
    by blast
  moreover from completeLevel_frontier [of classicCatalog "''Classic''" 0 freshState] u
  have "unlocked (completeLevel classicCatalog ''Classic'' 0 freshState) ''Classic'' = Some 1"
    by simp
  moreover from completeLevel_frontier [of classicCatalog "''Classic''" 2 freshState] u
  have "unlocked (completeLevel classicCatalog ''Classic'' 2 freshState) ''Classic'' = Some 0"
    by simp
  ultimately show ?thesis by blast
qed

section \<open>Skipping a level\<close>

text \<open>
  C6 as stated fails: a skip that goes through does not pay the reward of 10 coins.  From
  100 coins the balance after the skip is 50, not 60.
\<close>

theorem skipLevel_no_reward:
  "fst (skipLevel classicCatalog (abaAttempt [Null, Null, Null]) freshState) \<and>
   coins (snd (skipLevel classicCatalog (abaAttempt [Null, Null, Null]) freshState)) = 50 \<and>
   coins (snd (skipLevel classicCatalog (abaAttempt [Null, Null, Null]) freshState))
     \<noteq> coins freshState - 50 + 10"
  by (simp add: skipLevel_def deductCoins_def coins_completeLevel freshState_def)

text \<open>
  C6, amended.  With at least 50 coins a skip deducts 50 coins and completes the current
  level with \<open>completeLevel\<close>, exactly as a win does, but it does not go through
  \<open>handleWin\<close> and pays no reward: the balance changes by \<open>-50\<close>.  The reward of 10 coins is
  paid by \<open>handleWin\<close> alone, on every win.  With fewer than 50 coins nothing changes.
\<close>

theorem skipLevel_spec:
  "(50 \<le> coins s \<longrightarrow>
      skipLevel dl g s =
        (True, completeLevel dl (currentPackId g) (currentLevelIndex g)
                 (s\<lparr>coins := coins s - 50\<rparr>)) \<and>
      coins (snd (skipLevel dl g s)) = coins s - 50 \<and>
      isLevelCompleted (snd (skipLevel dl g s)) (currentPackId g) (currentLevelIndex g)) \<and>
   (coins s < 50 \<longrightarrow> skipLevel dl g s = (False, s)) \<and>
   handleWin dl g s =
     (completeLevel dl (currentPackId g) (currentLevelIndex g) s)
       \<lparr>coins := coins s + 10\<rparr>"
  by (simp add: skipLevel_def handleWin_def addCoins_def deductCoins_def coins_completeLevel
      isLevelCompleted_completeLevel)

theorem skipLevel_spec_witness:
  "50 \<le> coins freshState \<and>
   coins (snd (skipLevel classicCatalog (abaAttempt [Null, Null, Null]) freshState)) = 50 \<and>
   isLevelCompleted (snd (skipLevel classicCatalog (abaAttempt [Null, Null, Null]) freshState))
     ''Classic'' 0 \<and>
   skipLevel classicCatalog (abaAttempt [Null, Null, Null]) (freshState\<lparr>coins := 49\<rparr>)
     = (False, freshState\<lparr>coins := 49\<rparr>)"
proof -
  let ?g = "abaAttempt [Null, Null, Null]"
  have rich: "50 \<le> coins freshState" and coins: "coins freshState - 50 = 50"
    by (simp_all add: freshState_def)
  have poor: "coins (freshState\<lparr>coins := 49\<rparr>) < 50"
    by simp
  have cur: "currentPackId ?g = ''Classic''" "currentLevelIndex ?g = 0"
    by (simp_all add: abaAttempt_def)
  from skipLevel_spec [of freshState classicCatalog ?g] rich
  have "coins (snd (skipLevel classicCatalog ?g freshState)) = coins freshState - 50"
    and "isLevelCompleted (snd (skipLevel classicCatalog ?g freshState))
           (currentPackId ?g) (currentLevelIndex ?g)"
    by blast+
  moreover from skipLevel_spec [of "freshState\<lparr>coins := 49\<rparr>" classicCatalog ?g] poor
  have "skipLevel classicCatalog ?g (freshState\<lparr>coins := 49\<rparr>)
          = (False, freshState\<lparr>coins := 49\<rparr>)"
    by blast
  ultimately show ?thesis
    using rich by (simp only: cur coins simp_thms)
qed

section \<open>Looking a pack up\<close>

text \<open>
  C8.  \<open>getPack\<close> compares its argument with the \<open>name\<close> of each item and never with the
  identifier that \<open>DataLoader.init\<close> gave it.  For a pack named Classic whose explicit id
  is p1, the identifier p1 is stored, yet looking p1 up finds nothing, and looking the
  name up finds the pack whose identifier is p1.
\<close>

theorem getPack_ignores_id:
  "map id' (packs renamedCatalog) = [Some ''p1''] \<and>
   getPack renamedCatalog ''p1'' = None \<and>
   map_option id' (getPack renamedCatalog ''Classic'') = Some (Some ''p1'')"
  by (simp add: renamedCatalog_def DataLoader_init_def normalizeItem_def classicPack_def
      getPack_def)

section \<open>Winning\<close>

lemma slot_valid_iff:
  "(case sl of Null \<Rightarrow> True | Idx k \<Rightarrow> k < n | Hole \<Rightarrow> False) \<longleftrightarrow>
     sl = Null \<or> (\<exists>m. sl = Idx m \<and> m < n)"
  by (cases sl) auto

lemma those_letterChar:
  "list_all (\<lambda>sl. case sl of Null \<Rightarrow> True | Idx k \<Rightarrow> k < length scr | Hole \<Rightarrow> False) sel \<Longrightarrow>
   Null \<notin> set sel \<Longrightarrow>
   \<exists>parts. those (map (letterChar scr) sel) = Some parts \<and> concat parts = placedChars scr sel"
proof (induction sel)
  case Nil
  then show ?case by (simp add: placedChars_def)
next
  case (Cons sl sel)
  then obtain parts where parts: "those (map (letterChar scr) sel) = Some parts"
    and spelled: "concat parts = placedChars scr sel"
    by auto
  from Cons.prems obtain k where k: "sl = Idx k" "k < length scr"
    by (auto simp: slot_valid_iff)
  then have "letterChar scr sl = Some [char (scr ! k)]"
    by (simp add: letterChar_def)
  with parts have "those (map (letterChar scr) (sl # sel)) = Some ([char (scr ! k)] # parts)"
    by simp
  moreover have "placedChars scr (sl # sel) = char (scr ! k) # placedChars scr sel"
    using k by (simp add: placedChars_def)
  ultimately show ?case
    using spelled by simp
qed

lemma currentWord_placedWord:
  "slotsValid g \<Longrightarrow> Null \<notin> set (selectedIndices g) \<Longrightarrow>
   \<exists>parts. those (map (letterChar (scrambledLetters g)) (selectedIndices g)) = Some parts \<and>
           concat parts = placedWord g"
  unfolding slotsValid_def placedWord_def by (rule those_letterChar)

lemma snd_checkWin: "snd (checkWin g) = g"
  by (simp add: checkWin_def Let_def split: option.split)

text \<open>
  C1.  For an attempt whose slots are empty or refer to letters of the pool, \<open>checkWin\<close>
  reports Win if and only if every slot is filled and the characters of the referenced
  letters, concatenated in slot order, are \<open>targetWord\<close>; on a full assignment that
  spells something else it reports Mismatch; and it leaves the attempt, slots included,
  as it was.
\<close>

theorem checkWin_spec:
  assumes "slotsValid g"
  shows "(fst (checkWin g) = Inr Win \<longleftrightarrow>
            Null \<notin> set (selectedIndices g) \<and> placedWord g = targetWord g) \<and>
         (Null \<notin> set (selectedIndices g) \<and> placedWord g \<noteq> targetWord g \<longrightarrow>
            fst (checkWin g) = Inr Mismatch) \<and>
         (Null \<in> set (selectedIndices g) \<longrightarrow> fst (checkWin g) = Inr Incomplete) \<and>
         snd (checkWin g) = g"
proof (cases "Null \<in> set (selectedIndices g)")
  case True
  then show ?thesis by (simp add: checkWin_def)
next
  case False
  with assms obtain parts where
    "those (map (letterChar (scrambledLetters g)) (selectedIndices g)) = Some parts"
    and "concat parts = placedWord g"
    using currentWord_placedWord by blast
  with False show ?thesis by (simp add: checkWin_def)
qed

theorem checkWin_spec_witness:
  "slotsValid (abaAttempt [Idx 0, Idx 1, Idx 2]) \<and>
   fst (checkWin (abaAttempt [Idx 0, Idx 1, Idx 2])) = Inr Win \<and>
   slotsValid (abaAttempt [Idx 1, Idx 0, Idx 2]) \<and>
   fst (checkWin (abaAttempt [Idx 1, Idx 0, Idx 2])) = Inr Mismatch \<and>
   snd (checkWin (abaAttempt [Idx 1, Idx 0, Idx 2])) = abaAttempt [Idx 1, Idx 0, Idx 2]"
proof -
  have v: "slotsValid (abaAttempt [Idx 0, Idx 1, Idx 2])" "slotsValid (abaAttempt [Idx 1, Idx 0, Idx 2])"
    by (simp_all add: slotsValid_def abaAttempt_def)
  have w: "placedWord (abaAttempt [Idx 0, Idx 1, Idx 2]) = targetWord (abaAttempt [Idx 0, Idx 1, Idx 2])"
    "placedWord (abaAttempt [Idx 1, Idx 0, Idx 2]) \<noteq> targetWord (abaAttempt [Idx 1, Idx 0, Idx 2])"
    by (simp_all add: placedWord_def placedChars_def abaAttempt_def)
  have f: "Null \<notin> set (selectedIndices (abaAttempt [Idx 0, Idx 1, Idx 2]))"
    "Null \<notin> set (selectedIndices (abaAttempt [Idx 1, Idx 0, Idx 2]))"
    by (simp_all add: abaAttempt_def)
  from checkWin_spec [OF v(1)] checkWin_spec [OF v(2)] v w f show ?thesis
    by blast
qed

section \<open>Starting an attempt\<close>

lemma length_shuffle: "length (shuffle rnd k xs) = length xs"
  by (induction k arbitrary: xs) (simp_all add: Let_def)

lemma mset_shuffle: "k < length xs \<Longrightarrow> mset (shuffle rnd k xs) = mset xs"
proof (induction k arbitrary: xs)
  case 0
  then show ?case by simp
next
  case (Suc k)
  let ?i = "Suc k"
  let ?j = "rnd ?i mod (?i + 1)"
  have "?j < ?i + 1"
    by simp
  with Suc.prems have j: "?j < length xs"
    by linarith
  have "mset (xs[?i := xs ! ?j, ?j := xs ! ?i]) = mset xs"
    using Suc.prems j by (simp add: mset_swap)
  moreover have "k < length (xs[?i := xs ! ?j, ?j := xs ! ?i])"
    using Suc.prems by simp
  ultimately show ?case
    using Suc.IH [of "xs[?i := xs ! ?j, ?j := xs ! ?i]"] by (simp add: Let_def)
qed

lemma mset_shuffle_all: "mset (shuffle rnd (length xs - Suc 0) xs) = mset xs"
  by (cases xs) (simp_all add: mset_shuffle)

lemma map_char_enumerate:
  "map (char \<circ> (\<lambda>(i, c). \<lparr>char = c, letter_id = f i\<rparr>)) (enumerate n xs) = xs"
  by (induction xs arbitrary: n) simp_all

lemma chars_reset:
  "map char (scrambledLetters (snd (reset rnd g)))
     = shuffle rnd (length (targetWord g) - 1) (targetWord g)"
  by (simp add: reset_def Let_def map_char_enumerate del: decimal.simps)

lemma selectedIndices_reset:
  "selectedIndices (snd (reset rnd g)) = replicate (length (targetWord g)) Null"
  by (simp add: reset_def Let_def)

lemma targetWord_reset: "targetWord (snd (reset rnd g)) = targetWord g"
  by (simp add: reset_def Let_def)

lemma render_all_empty:
  "selectedIndices g = replicate (length (targetWord g)) Null \<Longrightarrow> render g = None"
  by (simp add: render_def getSlot_def list_all_iff)

text \<open>
  C2.  For every raw word (non-empty or not), \<open>reset\<close> and hence the start of an attempt
  yield a pool whose characters are, as a multiset, those of \<open>targetWord\<close>, and a slot
  assignment of the length of \<open>targetWord\<close> with every slot empty; \<open>targetWord\<close> is the
  raw word with its whitespace removed and then upper-cased.
\<close>

theorem reset_spec:
  "mset (map char (scrambledLetters (snd (reset rnd g)))) = mset (targetWord g) \<and>
   selectedIndices (snd (reset rnd g)) = replicate (length (targetWord g)) Null \<and>
   targetWord (snd (reset rnd g)) = targetWord g \<and>
   fst (reset rnd g) = None \<and>
   targetWord (snd (Game_init toUpperCase rnd packId levelIndex rawWord))
     = toUpperCase (filter (\<lambda>c. \<not> isWhitespace c) rawWord) \<and>
   mset (map char (scrambledLetters (snd (Game_init toUpperCase rnd packId levelIndex rawWord))))
     = mset (toUpperCase (filter (\<lambda>c. \<not> isWhitespace c) rawWord)) \<and>
   selectedIndices (snd (Game_init toUpperCase rnd packId levelIndex rawWord))
     = replicate (length (toUpperCase (filter (\<lambda>c. \<not> isWhitespace c) rawWord))) Null"
proof -
  have "fst (reset rnd g) = render (snd (reset rnd g))"
    by (simp add: reset_def Let_def)
  then have "fst (reset rnd g) = None"
    by (simp add: render_all_empty selectedIndices_reset targetWord_reset)
  then show ?thesis
    by (simp add: Game_init_def chars_reset selectedIndices_reset targetWord_reset
        mset_shuffle_all del: mset_map)
qed


section \<open>Occupancy of pool letters\<close>

lemma indexOf_Some:
  "indexOf xs x = Some e \<Longrightarrow> e < length xs \<and> xs ! e = x"
proof (induction xs arbitrary: e)
  case Nil
  then show ?case by simp
next
  case (Cons y ys)
  then show ?case by (cases "y = x") auto
qed

lemma indexOf_None: "indexOf xs x = None \<longleftrightarrow> x \<notin> set xs"
  by (induction xs) auto

lemma placedIndices_append:
  "placedIndices (xs @ ys) = placedIndices xs @ placedIndices ys"
  by (simp add: placedIndices_def)

lemma set_placedIndices: "set (placedIndices sel) = {k. Idx k \<in> set sel}"
proof (induction sel)
  case Nil
  then show ?case by (simp add: placedIndices_def)
next
  case (Cons sl sel)
  then show ?case by (cases sl) (auto simp: placedIndices_def)
qed

lemma distinct_placedIndices_fill:
  assumes "e < length sel" and "sel ! e = Null" and "Idx i \<notin> set sel"
    and "distinct (placedIndices sel)"
  shows "distinct (placedIndices (sel[e := Idx i]))"
proof -
  let ?a = "take e sel" and ?b = "drop (Suc e) sel"
  have old: "sel = ?a @ Null # ?b"
    using assms(1,2) by (metis id_take_nth_drop)
  have new: "sel[e := Idx i] = ?a @ Idx i # ?b"
    using assms(1) by (rule upd_conv_take_nth_drop)
  have "placedIndices sel = placedIndices ?a @ placedIndices ?b"
    by (subst old) (simp add: placedIndices_def)
  moreover have "placedIndices (sel[e := Idx i]) = placedIndices ?a @ i # placedIndices ?b"
    by (subst new) (simp add: placedIndices_def)
  moreover have "i \<notin> set (placedIndices sel)"
    using assms(3) by (simp add: set_placedIndices)
  ultimately show ?thesis
    using assms(4) by auto
qed

lemma snd_selectLetter:
  "snd (selectLetter i g) =
     (case indexOf (selectedIndices g) Null of
        None \<Rightarrow> g
      | Some e \<Rightarrow> g\<lparr>selectedIndices := (selectedIndices g)[e := Idx i]\<rparr>)"
proof (cases "indexOf (selectedIndices g) Null")
  case None
  then show ?thesis by (simp add: selectLetter_def)
next
  case (Some e)
  let ?g1 = "g\<lparr>selectedIndices := (selectedIndices g)[e := Idx i]\<rparr>"
  from Some have "e < length (selectedIndices g)"
    by (simp add: indexOf_Some)
  then have upd: "setSlot (selectedIndices g) e (Idx i) = (selectedIndices g)[e := Idx i]"
    by (simp add: setSlot_def)
  have "snd (checkWin ?g1) = ?g1"
    by (rule snd_checkWin)
  then show ?thesis
    using Some upd by (cases "checkWin ?g1") (simp add: selectLetter_def Let_def split: option.split sum.split)
qed

lemma selectLetter_keeps_occupancy:
  assumes "placedAtMostOnce g" and "\<not> isScrambledIndexSelected g i"
  shows "placedAtMostOnce (snd (selectLetter i g))"
proof (cases "indexOf (selectedIndices g) Null")
  case None
  with assms(1) show ?thesis by (simp add: snd_selectLetter)
next
  case (Some e)
  then have "e < length (selectedIndices g)" and "selectedIndices g ! e = Null"
    by (simp_all add: indexOf_Some)
  moreover have "Idx i \<notin> set (selectedIndices g)"
    using assms(2) by (simp add: isScrambledIndexSelected_def)
  ultimately have "distinct (placedIndices ((selectedIndices g)[e := Idx i]))"
    using assms(1) unfolding placedAtMostOnce_def by (rule distinct_placedIndices_fill)
  with Some show ?thesis by (simp add: snd_selectLetter placedAtMostOnce_def)
qed

lemma findAvailable_unselected:
  "findAvailable sel key i ls = Some f \<Longrightarrow> Idx f \<notin> set sel"
  by (induction ls arbitrary: i) (auto split: if_splits)

lemma handleInputLetter_keeps_occupancy:
  assumes "placedAtMostOnce g"
  shows "placedAtMostOnce (snd (handleInputLetter key g))"
proof (cases "findAvailable (selectedIndices g) key 0 (scrambledLetters g)")
  case None
  with assms show ?thesis by (simp add: handleInputLetter_def)
next
  case (Some f)
  then have "\<not> isScrambledIndexSelected g f"
    by (simp add: isScrambledIndexSelected_def findAvailable_unselected)
  with assms Some show ?thesis
    by (simp add: handleInputLetter_def selectLetter_keeps_occupancy)
qed

lemma tileClick_keeps_occupancy:
  "placedAtMostOnce g \<Longrightarrow> placedAtMostOnce (snd (tileClick index g))"
  by (simp add: tileClick_def selectLetter_keeps_occupancy)

text \<open>
  C10.  \<open>selectLetter\<close> does not check that the given pool index is unplaced: on the
  attempt at ABA whose first slot holds letter 0 and whose other slots are empty, selecting
  letter 0 again puts it into a second slot.  A pool letter occupies at most one slot only
  because the callers check: the keyboard handler and the tile click both keep the
  property, as \<open>selectLetter\<close> does whenever the index is not selected yet.
\<close>

theorem selectLetter_unguarded:
  "Null \<in> set (selectedIndices (abaAttempt [Idx 0, Null, Null])) \<and>
   isScrambledIndexSelected (abaAttempt [Idx 0, Null, Null]) 0 \<and>
   placedAtMostOnce (abaAttempt [Idx 0, Null, Null]) \<and>
   selectedIndices (snd (selectLetter 0 (abaAttempt [Idx 0, Null, Null])))
     = [Idx 0, Idx 0, Null] \<and>
   \<not> placedAtMostOnce (snd (selectLetter 0 (abaAttempt [Idx 0, Null, Null]))) \<and>
   (placedAtMostOnce g \<longrightarrow>
      placedAtMostOnce (snd (handleInputLetter key g)) \<and>
      placedAtMostOnce (snd (tileClick index g)) \<and>
      (\<not> isScrambledIndexSelected g i \<longrightarrow> placedAtMostOnce (snd (selectLetter i g))))"
proof -
  let ?g = "abaAttempt [Idx 0, Null, Null]"
  have after: "selectedIndices (snd (selectLetter 0 ?g)) = [Idx 0, Idx 0, Null]"
    by (simp add: snd_selectLetter abaAttempt_def)
  have "\<not> placedAtMostOnce (snd (selectLetter 0 ?g))"
    by (simp add: placedAtMostOnce_def placedIndices_def after)
  moreover have "Null \<in> set (selectedIndices ?g)" and "isScrambledIndexSelected ?g 0"
    and "placedAtMostOnce ?g"
    by (simp_all add: placedAtMostOnce_def placedIndices_def isScrambledIndexSelected_def
        abaAttempt_def)
  ultimately show ?thesis
    using after handleInputLetter_keeps_occupancy [of g key] tileClick_keeps_occupancy [of g index]
      selectLetter_keeps_occupancy [of g i]
    by blast
qed

theorem selectLetter_unguarded_witness:
  "placedAtMostOnce (abaAttempt [Idx 0, Null, Null]) \<and>
   selectedIndices (snd (handleInputLetter ''A'' (abaAttempt [Idx 0, Null, Null])))
     = [Idx 0, Idx 2, Null] \<and>
   placedAtMostOnce (snd (handleInputLetter ''A'' (abaAttempt [Idx 0, Null, Null]))) \<and>
   placedAtMostOnce (snd (tileClick 0 (abaAttempt [Idx 0, Null, Null]))) \<and>
   \<not> isScrambledIndexSelected (abaAttempt [Idx 0, Null, Null]) 1 \<and>
   placedAtMostOnce (snd (selectLetter 1 (abaAttempt [Idx 0, Null, Null])))"
proof -
  let ?g = "abaAttempt [Idx 0, Null, Null]"
  have p: "placedAtMostOnce ?g"
    by (simp add: placedAtMostOnce_def placedIndices_def abaAttempt_def)
  have n: "\<not> isScrambledIndexSelected ?g 1"
    by (simp add: isScrambledIndexSelected_def abaAttempt_def)
  have h: "selectedIndices (snd (handleInputLetter ''A'' ?g)) = [Idx 0, Idx 2, Null]"
    by (simp add: handleInputLetter_def snd_selectLetter abaAttempt_def)
  from selectLetter_unguarded [of ?g "''A''" 0 1] p n h show ?thesis
    by blast
qed


section \<open>After the win\<close>

lemma checkWin_Win:
  assumes "fst (checkWin g) = Inr Win"
  shows "Null \<notin> set (selectedIndices g)"
    and "\<exists>parts. those (map (letterChar (scrambledLetters g)) (selectedIndices g)) = Some parts \<and>
           concat parts = targetWord g"
  using assms by (auto simp: checkWin_def Let_def split: if_splits option.splits)

lemma checkWin_Win_placedWord:
  assumes "fst (checkWin g) = Inr Win" and "slotsValid g"
  shows "placedWord g = targetWord g"
  using currentWord_placedWord [OF assms(2) checkWin_Win(1) [OF assms(1)]]
    checkWin_Win(2) [OF assms(1)]
  by auto

lemma findSlotToFix_spelled:
  "list_all (\<lambda>sl. case sl of Null \<Rightarrow> True | Idx k \<Rightarrow> k < length scr | Hole \<Rightarrow> False) sel \<Longrightarrow>
   Null \<notin> set sel \<Longrightarrow> placedChars scr sel = cs \<Longrightarrow>
   findSlotToFix scr i cs sel = Inr None"
proof (induction sel arbitrary: cs i)
  case Nil
  then show ?case by (simp add: placedChars_def)
next
  case (Cons sl sel)
  from Cons.prems(1,2) obtain k where k: "sl = Idx k" "k < length scr"
    by (auto simp: slot_valid_iff)
  then have "placedChars scr (sl # sel) = char (scr ! k) # placedChars scr sel"
    by (simp add: placedChars_def)
  with Cons.prems(3) have cs: "cs = char (scr ! k) # placedChars scr sel"
    by simp
  from Cons.prems(1,2) have "findSlotToFix scr (Suc i) (placedChars scr sel) sel = Inr None"
    by (intro Cons.IH) simp_all
  with k cs show ?case by simp
qed

lemma useHint_won:
  assumes "fst (checkWin g) = Inr Win" and "slotsValid g"
  shows "useHint s g =
           (if 20 \<le> coins s then (Inr NoChangeNeeded, s\<lparr>coins := coins s - 20\<rparr>, g)
            else (Inr NotEnoughCoins, s, g))"
proof -
  have "placedChars (scrambledLetters g) (selectedIndices g) = targetWord g"
    using checkWin_Win_placedWord [OF assms] by (simp add: placedWord_def)
  with assms(2) checkWin_Win(1) [OF assms(1)]
  have "findSlotToFix (scrambledLetters g) 0 (targetWord g) (selectedIndices g) = Inr None"
    unfolding slotsValid_def by (rule findSlotToFix_spelled)
  then show ?thesis by (simp add: useHint_def deductCoins_def)
qed

lemma selectLetter_won:
  assumes "fst (checkWin g) = Inr Win"
  shows "selectLetter i g = (Inr None, g)"
proof -
  have "indexOf (selectedIndices g) Null = None"
    using checkWin_Win(1) [OF assms] by (simp add: indexOf_None)
  then show ?thesis by (simp add: selectLetter_def)
qed

lemma selectedIndices_deselectLetter:
  "slotIndex < length (selectedIndices g) \<Longrightarrow>
   selectedIndices (snd (deselectLetter slotIndex g)) = (selectedIndices g)[slotIndex := Null]"
  by (simp add: deselectLetter_def setSlot_def Let_def)

text \<open>
  C9 as stated fails: \<open>deselectLetter\<close> is accepted on a won attempt.  The attempt at ABA
  with slots 0, 1, 2 is a win, and deselecting slot 0 empties that slot.
\<close>

theorem deselectLetter_after_win:
  "fst (checkWin (abaAttempt [Idx 0, Idx 1, Idx 2])) = Inr Win \<and>
   selectedIndices (snd (deselectLetter 0 (abaAttempt [Idx 0, Idx 1, Idx 2])))
     = [Null, Idx 1, Idx 2] \<and>
   selectedIndices (snd (deselectLetter 0 (abaAttempt [Idx 0, Idx 1, Idx 2])))
     \<noteq> selectedIndices (abaAttempt [Idx 0, Idx 1, Idx 2])"
  by (simp add: checkWin_def letterChar_def selectedIndices_deselectLetter abaAttempt_def)

text \<open>
  C9, amended.  Once an attempt whose slots are empty or refer to letters of the pool is a
  win (a full assignment spelling \<open>targetWord\<close>), \<open>selectLetter\<close> and \<open>useHint\<close> leave its
  slots and its pool unchanged: \<open>selectLetter\<close> finds no empty slot, and \<open>useHint\<close> finds
  no slot to fix, although it still charges its 20 coins when they are there, so that the
  progress record it returns has 20 coins less.  \<open>deselectLetter\<close> is not blocked: on a slot of the won attempt it empties that slot, so
  the attempt changes.
\<close>

theorem won_attempt_mutation:
  assumes "fst (checkWin g) = Inr Win" and "slotsValid g"
  shows "selectLetter i g = (Inr None, g) \<and>
         snd (snd (useHint s g)) = g \<and>
         fst (useHint s g) = Inr (if 20 \<le> coins s then NoChangeNeeded else NotEnoughCoins) \<and>
         useHint s g =
           (if 20 \<le> coins s then (Inr NoChangeNeeded, s\<lparr>coins := coins s - 20\<rparr>, g)
            else (Inr NotEnoughCoins, s, g)) \<and>
         (slotIndex < length (selectedIndices g) \<longrightarrow>
            selectedIndices (snd (deselectLetter slotIndex g))
              = (selectedIndices g)[slotIndex := Null] \<and>
            snd (deselectLetter slotIndex g) \<noteq> g)"
proof -
  have "snd (deselectLetter slotIndex g) \<noteq> g" if "slotIndex < length (selectedIndices g)"
  proof
    assume "snd (deselectLetter slotIndex g) = g"
    then have "(selectedIndices g)[slotIndex := Null] = selectedIndices g"
      using that by (metis selectedIndices_deselectLetter)
    then have "selectedIndices g ! slotIndex = Null"
      using that by (metis nth_list_update_eq)
    then have "Null \<in> set (selectedIndices g)"
      using that by (metis nth_mem)
    with checkWin_Win(1) [OF assms(1)] show False by simp
  qed
  then show ?thesis
    by (simp add: selectLetter_won [OF assms(1)] useHint_won [OF assms]
        selectedIndices_deselectLetter)
qed

theorem won_attempt_mutation_witness:
  "fst (checkWin (abaAttempt [Idx 0, Idx 1, Idx 2])) = Inr Win \<and>
   slotsValid (abaAttempt [Idx 0, Idx 1, Idx 2]) \<and>
   selectLetter 1 (abaAttempt [Idx 0, Idx 1, Idx 2]) = (Inr None, abaAttempt [Idx 0, Idx 1, Idx 2]) \<and>
   snd (snd (useHint freshState (abaAttempt [Idx 0, Idx 1, Idx 2])))
     = abaAttempt [Idx 0, Idx 1, Idx 2] \<and>
   fst (useHint freshState (abaAttempt [Idx 0, Idx 1, Idx 2])) = Inr NoChangeNeeded \<and>
   20 \<le> coins freshState \<and>
   useHint freshState (abaAttempt [Idx 0, Idx 1, Idx 2])
     = (Inr NoChangeNeeded, freshState\<lparr>coins := 80\<rparr>, abaAttempt [Idx 0, Idx 1, Idx 2]) \<and>
   coins (fst (snd (useHint freshState (abaAttempt [Idx 0, Idx 1, Idx 2])))) = coins freshState - 20 \<and>
   useHint (freshState\<lparr>coins := 15\<rparr>) (abaAttempt [Idx 0, Idx 1, Idx 2])
     = (Inr NotEnoughCoins, freshState\<lparr>coins := 15\<rparr>, abaAttempt [Idx 0, Idx 1, Idx 2]) \<and>
   snd (deselectLetter 2 (abaAttempt [Idx 0, Idx 1, Idx 2])) \<noteq> abaAttempt [Idx 0, Idx 1, Idx 2]"
proof -
  let ?g = "abaAttempt [Idx 0, Idx 1, Idx 2]"
  have w: "fst (checkWin ?g) = Inr Win"
    by (simp add: checkWin_def letterChar_def abaAttempt_def)
  have v: "slotsValid ?g"
    by (simp add: slotsValid_def abaAttempt_def)
  have c: "20 \<le> coins freshState"
    by (simp add: freshState_def)
  have l: "2 < length (selectedIndices ?g)"
    by (simp add: abaAttempt_def)
  have left: "coins freshState - 20 = 80"
    by (simp add: freshState_def)
  have poor: "\<not> 20 \<le> coins (freshState\<lparr>coins := 15\<rparr>)"
    by simp
  from won_attempt_mutation [OF w v, of 1 freshState 2] c l
  have a: "selectLetter 1 ?g = (Inr None, ?g)"
    and b: "useHint freshState ?g = (Inr NoChangeNeeded, freshState\<lparr>coins := 80\<rparr>, ?g)"
    and d: "snd (deselectLetter 2 ?g) \<noteq> ?g"
    by (simp_all add: left)
  from won_attempt_mutation [OF w v, of 1 "freshState\<lparr>coins := 15\<rparr>" 2] poor
  have e: "useHint (freshState\<lparr>coins := 15\<rparr>) ?g
             = (Inr NotEnoughCoins, freshState\<lparr>coins := 15\<rparr>, ?g)"
    by simp
  from w v c a b d e show ?thesis
    by (simp add: left)
qed


section \<open>Hints and the number of correct slots\<close>

lemma count_replace:
  assumes "k < n" and "\<not> P k" and "Q k" and "\<forall>j<n. j \<noteq> k \<longrightarrow> Q j = P j"
  shows "length (filter Q [0..<n]) = Suc (length (filter P [0..<n]))"
proof -
  have "{x. Q x} \<inter> set [0..<n] = insert k ({x. P x} \<inter> set [0..<n])"
    using assms by auto
  moreover have "k \<notin> {x. P x} \<inter> set [0..<n]"
    using assms(2) by simp
  ultimately have "card ({x. Q x} \<inter> set [0..<n]) = Suc (card ({x. P x} \<inter> set [0..<n]))"
    by simp
  then show ?thesis
    by (simp add: distinct_length_filter)
qed

lemma count_move:
  assumes "k < n" and "old < n" and "old \<noteq> k" and "\<not> P k" and "Q k" and "\<not> Q old"
    and "\<forall>j<n. j \<noteq> k \<longrightarrow> j \<noteq> old \<longrightarrow> Q j = P j"
  shows "length (filter Q [0..<n]) =
           (if P old then length (filter P [0..<n]) else Suc (length (filter P [0..<n])))"
proof -
  let ?S = "{x. P x} \<inter> set [0..<n]"
  have eq: "{x. Q x} \<inter> set [0..<n] = insert k (?S - {old})"
    using assms by auto
  have k: "k \<notin> ?S - {old}"
    using assms(4) by simp
  have "card ({x. Q x} \<inter> set [0..<n]) = Suc (card (?S - {old}))"
    unfolding eq using k by simp
  moreover have "card (?S - {old}) = (if P old then card ?S - 1 else card ?S)"
    using assms(2) by (simp add: card_Diff_singleton_if)
  moreover have "P old \<Longrightarrow> 0 < card ?S"
    using assms(2) by (auto simp: card_gt_0_iff)
  ultimately have "card ({x. Q x} \<inter> set [0..<n]) = (if P old then card ?S else Suc (card ?S))"
    by auto
  then show ?thesis
    by (simp add: distinct_length_filter)
qed

lemma findSlotToFix_valid:
  assumes "length cs = length sel"
    and "list_all (\<lambda>sl. case sl of Null \<Rightarrow> True | Idx m \<Rightarrow> m < length scr | Hole \<Rightarrow> False) sel"
  shows "\<exists>r. findSlotToFix scr i cs sel = Inr r \<and>
     (case r of
        None \<Rightarrow> (\<forall>j<length sel. \<exists>m. sel ! j = Idx m \<and> char (scr ! m) = cs ! j)
      | Some k \<Rightarrow> i \<le> k \<and> k - i < length sel \<and>
          (\<forall>m. sel ! (k - i) = Idx m \<longrightarrow> char (scr ! m) \<noteq> cs ! (k - i)))"
  using assms
proof (induction cs sel arbitrary: i rule: list_induct2)
  case Nil
  then show ?case by simp
next
  case (Cons c cs sl sel)
  show ?case
  proof (cases sl)
    case Null
    then show ?thesis by simp
  next
    case Hole
    with Cons.prems show ?thesis by simp
  next
    case (Idx m)
    with Cons.prems have m: "m < length scr"
      and rest: "list_all (\<lambda>sl. case sl of Null \<Rightarrow> True | Idx m \<Rightarrow> m < length scr | Hole \<Rightarrow> False) sel"
      by simp_all
    show ?thesis
    proof (cases "char (scr ! m) = c")
      case False
      with Idx m show ?thesis by simp
    next
      case True
      from Cons.IH [OF rest, of "Suc i"] obtain r where
        r: "findSlotToFix scr (Suc i) cs sel = Inr r"
        and p: "case r of
           None \<Rightarrow> (\<forall>j<length sel. \<exists>m. sel ! j = Idx m \<and> char (scr ! m) = cs ! j)
         | Some k \<Rightarrow> Suc i \<le> k \<and> k - Suc i < length sel \<and>
             (\<forall>m. sel ! (k - Suc i) = Idx m \<longrightarrow> char (scr ! m) \<noteq> cs ! (k - Suc i))"
        by blast
      have f: "findSlotToFix scr i (c # cs) (sl # sel) = Inr r"
        using Idx m True r by simp
      show ?thesis
      proof (cases r)
        case None
        with p have "\<forall>j<length (sl # sel). \<exists>m. (sl # sel) ! j = Idx m \<and> char (scr ! m) = (c # cs) ! j"
          using Idx True by (auto simp: nth_Cons')
        with f None show ?thesis by simp
      next
        case (Some k)
        with p have k: "Suc i \<le> k" "k - Suc i < length sel"
          and q: "\<forall>m. sel ! (k - Suc i) = Idx m \<longrightarrow> char (scr ! m) \<noteq> cs ! (k - Suc i)"
          by simp_all
        from k(1) have d: "k - i = Suc (k - Suc i)"
          by simp
        from k q have "i \<le> k \<and> k - i < length (sl # sel) \<and>
          (\<forall>m. (sl # sel) ! (k - i) = Idx m \<longrightarrow> char (scr ! m) \<noteq> (c # cs) ! (k - i))"
          unfolding d by simp
        with f Some show ?thesis by simp
      qed
    qed
  qed
qed

lemma findScrambledIdx_found:
  "findScrambledIdx sel c i ls used = (best, used') \<Longrightarrow>
     (\<forall>b. best = Some b \<longrightarrow> i \<le> b \<and> b - i < length ls \<and> char (ls ! (b - i)) = c) \<and>
     (\<forall>u. used' = Some u \<longrightarrow>
        used = Some u \<or> (i \<le> u \<and> u - i < length ls \<and> char (ls ! (u - i)) = c))"
proof (induction ls arbitrary: i used)
  case Nil
  then show ?case by simp
next
  case (Cons l ls)
  have d: "\<And>x. Suc i \<le> x \<Longrightarrow> x - i = Suc (x - Suc i)"
    by simp
  show ?case
  proof (cases "char l = c")
    case False
    with Cons.prems have "findScrambledIdx sel c (Suc i) ls used = (best, used')"
      by simp
    from Cons.IH [OF this] show ?thesis
      by (auto simp: d)
  next
    case True
    show ?thesis
    proof (cases "Idx i \<notin> set sel")
      case True
      with \<open>char l = c\<close> Cons.prems show ?thesis by auto
    next
      case False
      with \<open>char l = c\<close> Cons.prems
      have "findScrambledIdx sel c (Suc i) ls (Some i) = (best, used')"
        by simp
      from Cons.IH [OF this] \<open>char l = c\<close> show ?thesis
        by (auto simp: d)
    qed
  qed
qed


lemma slotCorrect_nth:
  "i < length (selectedIndices g) \<Longrightarrow>
   slotCorrect g i \<longleftrightarrow>
     (\<exists>m. selectedIndices g ! i = Idx m \<and> i < length (targetWord g) \<and>
          m < length (scrambledLetters g) \<and> char (scrambledLetters g ! m) = targetWord g ! i)"
  by (simp add: slotCorrect_def getSlot_def split: slot.split)

lemma slotsValid_nth:
  "slotsValid g \<Longrightarrow> i < length (selectedIndices g) \<Longrightarrow> selectedIndices g ! i = Idx m \<Longrightarrow>
   m < length (scrambledLetters g)"
  by (auto simp: slotsValid_def list_all_length split: slot.splits)

lemma slotsValid_set:
  "slotsValid g \<longleftrightarrow>
     (\<forall>sl\<in>set (selectedIndices g). sl = Null \<or> (\<exists>m. sl = Idx m \<and> m < length (scrambledLetters g)))"
  by (simp add: slotsValid_def list_all_iff slot_valid_iff)

lemma render_wellFormed: "wellFormed g \<Longrightarrow> render g = None"
  by (auto simp: render_def wellFormed_def slotsValid_def list_all_length getSlot_def
      split: slot.splits)

lemma checkWin_valid:
  assumes "slotsValid g"
  shows "\<exists>v. checkWin g = (Inr v, g)"
proof (cases "Null \<in> set (selectedIndices g)")
  case True
  then show ?thesis by (simp add: checkWin_def)
next
  case False
  with assms obtain parts where
    "those (map (letterChar (scrambledLetters g)) (selectedIndices g)) = Some parts"
    using currentWord_placedWord by blast
  with False show ?thesis by (simp add: checkWin_def Let_def)
qed

lemma useHint_step:
  assumes wf: "wellFormed g" and coins: "20 \<le> coins s"
    and slot: "findSlotToFix (scrambledLetters g) 0 (targetWord g) (selectedIndices g)
                 = Inr (Some k)"
    and found: "findScrambledIdx (selectedIndices g) (targetWord g ! k) 0 (scrambledLetters g) None
                 = (best, used)"
    and final: "(case best of Some b \<Rightarrow> Some b | None \<Rightarrow> used) = Some f"
  shows "\<exists>v g1. useHint s g = (Inr (Applied k v), s\<lparr>coins := coins s - 20\<rparr>, g1) \<and>
           g1 = g\<lparr>selectedIndices :=
                 (case indexOf (selectedIndices g) (Idx f) of
                    Some old \<Rightarrow> (selectedIndices g)[old := Null]
                  | None \<Rightarrow> selectedIndices g)[k := Idx f]\<rparr> \<and>
           wellFormed g1"
proof -
  let ?sel = "selectedIndices g"
  let ?sel1 = "case indexOf ?sel (Idx f) of Some old \<Rightarrow> ?sel[old := Null] | None \<Rightarrow> ?sel"
  let ?g1 = "g\<lparr>selectedIndices := ?sel1[k := Idx f]\<rparr>"
  from wf have len: "length ?sel = length (targetWord g)" and valid: "slotsValid g"
    by (simp_all add: wellFormed_def)
  from findSlotToFix_valid [OF len [symmetric] valid [unfolded slotsValid_def], of 0] slot
  have k: "k < length ?sel"
    by auto
  from findScrambledIdx_found [OF found] final have f: "f < length (scrambledLetters g)"
    by (cases best) auto
  have sel1: "(case indexOf ?sel (Idx f) of
                 Some old \<Rightarrow> setSlot ?sel old Null | None \<Rightarrow> ?sel) = ?sel1"
    by (auto simp: setSlot_def dest: indexOf_Some split: option.split)
  have len1: "length ?sel1 = length ?sel"
    by (simp split: option.split)
  have sel2: "setSlot ?sel1 k (Idx f) = ?sel1[k := Idx f]"
    using k len1 by (simp add: setSlot_def)
  have "set (?sel1[k := Idx f]) \<subseteq> insert (Idx f) (insert Null (set ?sel))"
  proof -
    have "set (?sel1[k := Idx f]) \<subseteq> insert (Idx f) (set ?sel1)"
      by (rule set_update_subset_insert)
    moreover have "set ?sel1 \<subseteq> insert Null (set ?sel)"
    proof (cases "indexOf ?sel (Idx f)")
      case None
      then show ?thesis by auto
    next
      case (Some old)
      then show ?thesis by (simp add: set_update_subset_insert)
    qed
    ultimately show ?thesis by blast
  qed
  with valid f have valid1: "slotsValid ?g1"
    by (auto simp: slotsValid_set)
  then have wf1: "wellFormed ?g1"
    using len len1 by (simp add: wellFormed_def)
  then have r: "render ?g1 = None"
    by (rule render_wellFormed)
  from checkWin_valid [OF valid1] obtain v where v: "checkWin ?g1 = (Inr v, ?g1)"
    by blast
  have "useHint s g = (Inr (Applied k v), s\<lparr>coins := coins s - 20\<rparr>, ?g1)"
    using coins slot found final
    by (simp add: useHint_def deductCoins_def sel1 sel2 r v)
  with wf1 show ?thesis by blast
qed


lemma hint_count:
  assumes wf: "wellFormed g"
    and slot: "findSlotToFix (scrambledLetters g) 0 (targetWord g) (selectedIndices g)
                 = Inr (Some k)"
    and found: "findScrambledIdx (selectedIndices g) (targetWord g ! k) 0 (scrambledLetters g) None
                 = (best, used)"
    and final: "(case best of Some b \<Rightarrow> Some b | None \<Rightarrow> used) = Some f"
    and g1: "g1 = g\<lparr>selectedIndices :=
                 (case indexOf (selectedIndices g) (Idx f) of
                    Some old \<Rightarrow> (selectedIndices g)[old := Null]
                  | None \<Rightarrow> selectedIndices g)[k := Idx f]\<rparr>"
  shows "correctCount g1 =
           (if takenFromCorrectSlot g g1 k then correctCount g else Suc (correctCount g))"
proof -
  let ?sel = "selectedIndices g"
  let ?n = "length (targetWord g)"
  from wf have len: "length ?sel = ?n" and valid: "slotsValid g"
    by (simp_all add: wellFormed_def)
  from findSlotToFix_valid [OF len [symmetric] valid [unfolded slotsValid_def], of 0] slot
  have k: "k < ?n"
    and wrong: "\<forall>m. ?sel ! k = Idx m \<longrightarrow> char (scrambledLetters g ! m) \<noteq> targetWord g ! k"
    using len by auto
  from findScrambledIdx_found [OF found] final
  have f: "f < length (scrambledLetters g)"
    and fc: "char (scrambledLetters g ! f) = targetWord g ! k"
    by (cases best; auto)+
  have same: "targetWord g1 = targetWord g" "scrambledLetters g1 = scrambledLetters g"
    by (simp_all add: g1)
  have len1: "length (selectedIndices g1) = ?n"
    by (simp add: g1 len split: option.split)
  have notP: "\<not> slotCorrect g k"
    using k len wrong by (auto simp: slotCorrect_nth)
  have atk: "selectedIndices g1 ! k = Idx f"
    using k len by (simp add: g1 split: option.split)
  then have Q: "slotCorrect g1 k"
    using k len1 f fc by (simp add: slotCorrect_nth same)
  have taken: "takenFromCorrectSlot g g1 k =
      (case indexOf ?sel (Idx f) of Some old \<Rightarrow> slotCorrect g old | None \<Rightarrow> False)"
    using k len1 atk by (simp add: takenFromCorrectSlot_def getSlot_def)
  show ?thesis
  proof (cases "indexOf ?sel (Idx f)")
    case None
    then have "selectedIndices g1 = ?sel[k := Idx f]"
      by (simp add: g1)
    then have "\<forall>j<?n. j \<noteq> k \<longrightarrow> slotCorrect g1 j = slotCorrect g j"
      using len by (simp add: slotCorrect_nth same)
    from count_replace [OF k notP Q this] None show ?thesis
      by (simp add: correctCount_def same taken)
  next
    case (Some old)
    then have old: "old < ?n" and at_old: "?sel ! old = Idx f"
      using len by (auto dest: indexOf_Some)
    have neq: "old \<noteq> k"
      using at_old wrong fc by auto
    have sel1: "selectedIndices g1 = ?sel[old := Null, k := Idx f]"
      using Some by (simp add: g1)
    have notQ: "\<not> slotCorrect g1 old"
      using old neq len len1 by (simp add: slotCorrect_nth sel1)
    have "\<forall>j<?n. j \<noteq> k \<longrightarrow> j \<noteq> old \<longrightarrow> slotCorrect g1 j = slotCorrect g j"
      using len len1 by (simp add: slotCorrect_nth same sel1)
    from count_move [OF k old neq notP Q notQ this] Some show ?thesis
      by (simp add: correctCount_def same taken)
  qed
qed

lemma correctCount_all:
  assumes "length (selectedIndices g) = length (targetWord g)"
    and "\<forall>j<length (selectedIndices g). \<exists>m. selectedIndices g ! j = Idx m \<and>
            char (scrambledLetters g ! m) = targetWord g ! j"
    and "slotsValid g"
  shows "correctCount g = length (targetWord g)"
proof -
  have "slotCorrect g j" if j: "j < length (targetWord g)" for j
  proof -
    from j assms(1,2) obtain m where m: "selectedIndices g ! j = Idx m"
      and c: "char (scrambledLetters g ! m) = targetWord g ! j"
      by auto
    from assms(3) j m have "m < length (scrambledLetters g)"
      using assms(1) by (simp add: slotsValid_nth)
    with j m c show ?thesis
      using assms(1) by (simp add: slotCorrect_nth)
  qed
  then have "\<forall>j\<in>set [0..<length (targetWord g)]. slotCorrect g j"
    by simp
  then have "filter (slotCorrect g) [0..<length (targetWord g)] = [0..<length (targetWord g)]"
    by (simp only: filter_True)
  then show ?thesis by (simp add: correctCount_def)
qed

text \<open>
  C3.  A hint that changes the attempt should raise the number of correct slots by
  exactly one.  \<open>useHint\<close> does not: when every letter with the wanted character is
  placed, its second loop keeps the last of them, whether or not that one sits correctly,
  and moves it.  In the attempt at ABA with the pool A, B, A and the slots empty, 0, 2
  (reached by selecting letters 1, 0, 2 and deselecting slot 0) only slot 2 is correct;
  letter 0 has the wanted character A and sits wrongly in slot 1, yet the hint moves
  letter 2 from slot 2 to slot 0, after which only slot 0 is correct.  In the attempt at
  AAB with the pool A, A, B and the slots 1, 2, 0 (three selections) paid hints move
  letter 1 back and forth between slots 0 and 1 for ever, with one correct slot
  throughout.
\<close>

theorem useHint_count_unchanged:
  "fst (useHint freshState (abaAttempt [Null, Idx 0, Idx 2])) = Inr (Applied 0 Incomplete) \<and>
   selectedIndices (snd (snd (useHint freshState (abaAttempt [Null, Idx 0, Idx 2]))))
     = [Idx 2, Idx 0, Null] \<and>
   correctCount (abaAttempt [Null, Idx 0, Idx 2]) = 1 \<and>
   correctCount (snd (snd (useHint freshState (abaAttempt [Null, Idx 0, Idx 2])))) = 1 \<and>
   slotCorrect (abaAttempt [Null, Idx 0, Idx 2]) 2 \<and>
   \<not> slotCorrect (abaAttempt [Null, Idx 0, Idx 2]) 1 \<and>
   char (scrambledLetters (abaAttempt [Null, Idx 0, Idx 2]) ! 0)
     = targetWord (abaAttempt [Null, Idx 0, Idx 2]) ! 0 \<and>
   useHint freshState (aabAttempt [Idx 1, Idx 2, Idx 0])
     = (Inr (Applied 1 Incomplete), freshState\<lparr>coins := 80\<rparr>,
        aabAttempt [Null, Idx 1, Idx 0]) \<and>
   useHint (freshState\<lparr>coins := 80\<rparr>) (aabAttempt [Null, Idx 1, Idx 0])
     = (Inr (Applied 0 Incomplete), freshState\<lparr>coins := 60\<rparr>,
        aabAttempt [Idx 1, Null, Idx 0]) \<and>
   useHint (freshState\<lparr>coins := 60\<rparr>) (aabAttempt [Idx 1, Null, Idx 0])
     = (Inr (Applied 1 Incomplete), freshState\<lparr>coins := 40\<rparr>,
        aabAttempt [Null, Idx 1, Idx 0]) \<and>
   correctCount (aabAttempt [Idx 1, Idx 2, Idx 0]) = 1 \<and>
   correctCount (aabAttempt [Null, Idx 1, Idx 0]) = 1 \<and>
   correctCount (aabAttempt [Idx 1, Null, Idx 0]) = 1"
proof -
  have h: "useHint freshState (abaAttempt [Null, Idx 0, Idx 2]) =
      (Inr (Applied 0 Incomplete), freshState\<lparr>coins := 80\<rparr>, abaAttempt [Idx 2, Idx 0, Null])"
    by (simp add: useHint_def deductCoins_def freshState_def abaAttempt_def setSlot_def
        render_def getSlot_def checkWin_def Let_def)
  have aba: "correctCount (abaAttempt [Null, Idx 0, Idx 2]) = 1"
    "correctCount (abaAttempt [Idx 2, Idx 0, Null]) = 1"
    "slotCorrect (abaAttempt [Null, Idx 0, Idx 2]) 2"
    "\<not> slotCorrect (abaAttempt [Null, Idx 0, Idx 2]) 1"
    "char (scrambledLetters (abaAttempt [Null, Idx 0, Idx 2]) ! 0)
       = targetWord (abaAttempt [Null, Idx 0, Idx 2]) ! 0"
    by (simp_all add: correctCount_def slotCorrect_def getSlot_def abaAttempt_def)
  have c1: "useHint freshState (aabAttempt [Idx 1, Idx 2, Idx 0])
     = (Inr (Applied 1 Incomplete), freshState\<lparr>coins := 80\<rparr>,
        aabAttempt [Null, Idx 1, Idx 0])"
    by (simp add: useHint_def deductCoins_def freshState_def aabAttempt_def setSlot_def
        render_def getSlot_def checkWin_def Let_def)
  have c2: "useHint (freshState\<lparr>coins := 80\<rparr>) (aabAttempt [Null, Idx 1, Idx 0])
     = (Inr (Applied 0 Incomplete), freshState\<lparr>coins := 60\<rparr>,
        aabAttempt [Idx 1, Null, Idx 0])"
    by (simp add: useHint_def deductCoins_def freshState_def aabAttempt_def setSlot_def
        render_def getSlot_def checkWin_def Let_def)
  have c3: "useHint (freshState\<lparr>coins := 60\<rparr>) (aabAttempt [Idx 1, Null, Idx 0])
     = (Inr (Applied 1 Incomplete), freshState\<lparr>coins := 40\<rparr>,
        aabAttempt [Null, Idx 1, Idx 0])"
    by (simp add: useHint_def deductCoins_def freshState_def aabAttempt_def setSlot_def
        render_def getSlot_def checkWin_def Let_def)
  have aab: "correctCount (aabAttempt [Idx 1, Idx 2, Idx 0]) = 1"
    "correctCount (aabAttempt [Null, Idx 1, Idx 0]) = 1"
    "correctCount (aabAttempt [Idx 1, Null, Idx 0]) = 1"
    by (simp_all add: correctCount_def slotCorrect_def getSlot_def aabAttempt_def)
  have "selectedIndices (abaAttempt [Idx 2, Idx 0, Null]) = [Idx 2, Idx 0, Null]"
    by (simp add: abaAttempt_def)
  with aba aab show ?thesis
    by (simp only: h c1 c2 c3 fst_conv snd_conv simp_thms)
qed

text \<open>
  What \<open>useHint\<close> does to the number of correct slots of a well-formed attempt when the
  balance covers the 20 coins: it returns normally and never lowers the number; when it
  writes a letter the number goes up by one unless the letter came out of a slot in which
  it was correct; when no slot needs fixing every slot is correct and the attempt is
  unchanged, as it is when the pool has no letter with the wanted character.
\<close>

lemma useHint_count_cases:
  assumes "wellFormed g" and "20 \<le> coins s"
  shows "\<exists>h s' g'. useHint s g = (Inr h, s', g') \<and> correctCount g \<le> correctCount g' \<and>
     (case h of
        Applied slotToFix v \<Rightarrow>
          correctCount g' =
            (if takenFromCorrectSlot g g' slotToFix then correctCount g else correctCount g + 1)
      | NoChangeNeeded \<Rightarrow> g' = g \<and> correctCount g = length (targetWord g)
      | NoLetterFound \<Rightarrow> g' = g
      | NotEnoughCoins \<Rightarrow> False)"
proof -
  from assms(1) have len: "length (selectedIndices g) = length (targetWord g)"
    and valid: "slotsValid g"
    by (simp_all add: wellFormed_def)
  from findSlotToFix_valid [OF len [symmetric] valid [unfolded slotsValid_def], of 0]
  obtain r where r: "findSlotToFix (scrambledLetters g) 0 (targetWord g) (selectedIndices g) = Inr r"
    and p: "case r of
        None \<Rightarrow> (\<forall>j<length (selectedIndices g). \<exists>m. selectedIndices g ! j = Idx m \<and>
                   char (scrambledLetters g ! m) = targetWord g ! j)
      | Some k \<Rightarrow> 0 \<le> k \<and> k - 0 < length (selectedIndices g) \<and>
          (\<forall>m. selectedIndices g ! (k - 0) = Idx m \<longrightarrow>
               char (scrambledLetters g ! m) \<noteq> targetWord g ! (k - 0))"
    by blast
  show ?thesis
  proof (cases r)
    case None
    with p have "correctCount g = length (targetWord g)"
      using len valid by (simp add: correctCount_all)
    moreover have "useHint s g = (Inr NoChangeNeeded, s\<lparr>coins := coins s - 20\<rparr>, g)"
      using assms(2) r None by (simp add: useHint_def deductCoins_def)
    ultimately show ?thesis by simp
  next
    case (Some k)
    obtain best used where found:
      "findScrambledIdx (selectedIndices g) (targetWord g ! k) 0 (scrambledLetters g) None
         = (best, used)"
      by (cases "findScrambledIdx (selectedIndices g) (targetWord g ! k) 0 (scrambledLetters g) None")
    show ?thesis
    proof (cases "case best of Some b \<Rightarrow> Some b | None \<Rightarrow> used")
      case None
      have "useHint s g = (Inr NoLetterFound, s\<lparr>coins := coins s - 20\<rparr>, g)"
        using assms(2) r Some found None by (simp add: useHint_def deductCoins_def)
      then show ?thesis by simp
    next
      case final: (Some f)
      let ?g1 = "g\<lparr>selectedIndices :=
                 (case indexOf (selectedIndices g) (Idx f) of
                    Some old \<Rightarrow> (selectedIndices g)[old := Null]
                  | None \<Rightarrow> selectedIndices g)[k := Idx f]\<rparr>"
      from r Some have slot:
        "findSlotToFix (scrambledLetters g) 0 (targetWord g) (selectedIndices g) = Inr (Some k)"
        by simp
      from useHint_step [OF assms slot found final] obtain v where
        u: "useHint s g = (Inr (Applied k v), s\<lparr>coins := coins s - 20\<rparr>, ?g1)"
        by auto
      from hint_count [OF assms(1) slot found final refl]
      have "correctCount ?g1 =
          (if takenFromCorrectSlot g ?g1 k then correctCount g else Suc (correctCount g))" .
      with u show ?thesis by simp
    qed
  qed
qed

lemma useHint_count_cases_example:
  "wellFormed (abaAttempt [Idx 1, Null, Null]) \<and> 20 \<le> coins freshState \<and>
   useHint freshState (abaAttempt [Idx 1, Null, Null])
     = (Inr (Applied 0 Incomplete), freshState\<lparr>coins := 80\<rparr>, abaAttempt [Idx 0, Null, Null]) \<and>
   correctCount (abaAttempt [Idx 1, Null, Null]) = 0 \<and>
   correctCount (abaAttempt [Idx 0, Null, Null]) = 1 \<and>
   \<not> takenFromCorrectSlot (abaAttempt [Idx 1, Null, Null]) (abaAttempt [Idx 0, Null, Null]) 0 \<and>
   (\<exists>h s' g'. useHint freshState (abaAttempt [Idx 1, Null, Null]) = (Inr h, s', g') \<and>
      correctCount (abaAttempt [Idx 1, Null, Null]) \<le> correctCount g')"
proof -
  let ?g = "abaAttempt [Idx 1, Null, Null]"
  have wf: "wellFormed ?g"
    by (simp add: wellFormed_def slotsValid_def abaAttempt_def)
  have c: "20 \<le> coins freshState"
    by (simp add: freshState_def)
  have u: "useHint freshState ?g
     = (Inr (Applied 0 Incomplete), freshState\<lparr>coins := 80\<rparr>, abaAttempt [Idx 0, Null, Null])"
    by (simp add: useHint_def deductCoins_def freshState_def abaAttempt_def setSlot_def
        render_def getSlot_def checkWin_def Let_def)
  have n: "correctCount ?g = 0" "correctCount (abaAttempt [Idx 0, Null, Null]) = 1"
    by (simp_all add: correctCount_def slotCorrect_def getSlot_def abaAttempt_def)
  have t: "\<not> takenFromCorrectSlot ?g (abaAttempt [Idx 0, Null, Null]) 0"
    by (simp add: takenFromCorrectSlot_def getSlot_def abaAttempt_def)
  from useHint_count_cases [OF wf c]
  have "\<exists>h s' g'. useHint freshState ?g = (Inr h, s', g') \<and> correctCount ?g \<le> correctCount g'"
    by blast
  with wf c u n t show ?thesis by blast
qed


section \<open>Attempts stay well formed\<close>

text \<open>
  The attempts that \<open>reset\<close> starts are well formed, and \<open>selectLetter\<close> on an index of
  the pool, \<open>deselectLetter\<close> on a slot and \<open>useHint\<close> keep them so.
\<close>

lemma wellFormed_reset: "wellFormed (snd (reset rnd g))"
  by (simp add: wellFormed_def slotsValid_def selectedIndices_reset targetWord_reset
      list_all_iff)

lemma wellFormed_selectLetter:
  assumes "wellFormed g" and "i < length (scrambledLetters g)"
  shows "wellFormed (snd (selectLetter i g))"
proof (cases "indexOf (selectedIndices g) Null")
  case None
  with assms(1) show ?thesis by (simp add: snd_selectLetter)
next
  case (Some e)
  have "set ((selectedIndices g)[e := Idx i]) \<subseteq> insert (Idx i) (set (selectedIndices g))"
    by (rule set_update_subset_insert)
  with assms Some show ?thesis
    by (auto simp: snd_selectLetter wellFormed_def slotsValid_set)
qed

lemma wellFormed_deselectLetter:
  assumes "wellFormed g" and "slotIndex < length (selectedIndices g)"
  shows "wellFormed (snd (deselectLetter slotIndex g))"
proof -
  have "set ((selectedIndices g)[slotIndex := Null]) \<subseteq> insert Null (set (selectedIndices g))"
    by (rule set_update_subset_insert)
  with assms show ?thesis
    by (auto simp: deselectLetter_def setSlot_def Let_def wellFormed_def slotsValid_set)
qed

lemma wellFormed_useHint:
  assumes "wellFormed g"
  shows "wellFormed (snd (snd (useHint s g)))"
proof (cases "20 \<le> coins s")
  case False
  with assms show ?thesis by (simp add: useHint_def deductCoins_def)
next
  case True
  from assms have len: "length (selectedIndices g) = length (targetWord g)"
    and valid: "slotsValid g"
    by (simp_all add: wellFormed_def)
  from findSlotToFix_valid [OF len [symmetric] valid [unfolded slotsValid_def], of 0]
  obtain r where r: "findSlotToFix (scrambledLetters g) 0 (targetWord g) (selectedIndices g) = Inr r"
    by blast
  show ?thesis
  proof (cases r)
    case None
    with assms True r show ?thesis by (simp add: useHint_def deductCoins_def)
  next
    case (Some k)
    obtain best used where found:
      "findScrambledIdx (selectedIndices g) (targetWord g ! k) 0 (scrambledLetters g) None
         = (best, used)"
      by (cases "findScrambledIdx (selectedIndices g) (targetWord g ! k) 0 (scrambledLetters g) None")
    show ?thesis
    proof (cases "case best of Some b \<Rightarrow> Some b | None \<Rightarrow> used")
      case None
      with assms True r Some found show ?thesis by (simp add: useHint_def deductCoins_def)
    next
      case final: (Some f)
      from r Some have slot:
        "findSlotToFix (scrambledLetters g) 0 (targetWord g) (selectedIndices g) = Inr (Some k)"
        by simp
      from useHint_step [OF assms True slot found final] show ?thesis
        by auto
    qed
  qed
qed


end
